theory Spec2Isabelle
  imports Complex_Main
begin

section \<open>anydisplay: the Canvas rasteriser and the Null display\<close>

text \<open>
  A shallow embedding of \<^verbatim>\<open>anydisplay/__init__.py\<close>: the \<^verbatim>\<open>Display\<close> base class,
  \<^verbatim>\<open>NullDisplay\<close> and \<^verbatim>\<open>Canvas\<close>.

  Python's \<^verbatim>\<open>float\<close> values are modelled by \<^typ>\<open>real\<close>: the arithmetic of the model is
  exact, so rounding, overflow to infinity and NaN are outside the model. Python's
  unbounded \<^verbatim>\<open>int\<close> is \<^typ>\<open>int\<close>. An exception is a value of \<open>error\<close>; an operation that
  mutates an object returns the error (if any) together with the object as the
  exception leaves it. The calls a Canvas makes on its display are recorded as a list of
  \<open>sink_call\<close>, oldest first.
\<close>

subsection \<open>Python primitives\<close>

datatype error = ValueError | IndexError

text \<open>\<^verbatim>\<open>int(x)\<close> on a float truncates towards zero.\<close>

definition py_int :: "real \<Rightarrow> int" where
  "py_int x = (if x < 0 then \<lceil>x\<rceil> else \<lfloor>x\<rfloor>)"

text \<open>\<^verbatim>\<open>round(x)\<close> with one argument rounds to the nearest integer, a tie to the even one.\<close>

definition py_round :: "real \<Rightarrow> int" where
  "py_round x =
     (let f = \<lfloor>x\<rfloor>; d = x - of_int f
      in if d < 1 / 2 then f
         else if 1 / 2 < d then f + 1
         else if even f then f else f + 1)"

text \<open>\<^verbatim>\<open>range(a, b + 1)\<close>: empty when \<open>b < a\<close>.\<close>

definition range_incl :: "int \<Rightarrow> int \<Rightarrow> int list" where
  "range_incl a b = [a..b]"

text \<open>
  Indexing one axis of length \<open>n\<close> of a numpy array with the Python integer \<open>i\<close>:
  a negative index counts from the end, anything outside \<open>[-n, n)\<close> raises
  \<^verbatim>\<open>IndexError\<close>.
\<close>

definition np_index :: "int \<Rightarrow> int \<Rightarrow> int option" where
  "np_index n i =
     (if 0 \<le> i \<and> i < n then Some i
      else if - n \<le> i \<and> i < 0 then Some (i + n)
      else None)"

text \<open>
  A \<^verbatim>\<open>for\<close> loop whose body may raise: the first exception ends the loop, and the state
  is the one the body left behind.
\<close>

fun for_each :: "('a \<Rightarrow> 's \<Rightarrow> error option \<times> 's) \<Rightarrow> 'a list \<Rightarrow> 's \<Rightarrow> error option \<times> 's" where
  "for_each body [] st = (None, st)"
| "for_each body (a # as) st =
     (case body a st of
        (None, st') \<Rightarrow> for_each body as st'
      | (Some e, st') \<Rightarrow> (Some e, st'))"

subsection \<open>Displays\<close>

text \<open>
  The fields of a display object: \<^verbatim>\<open>_orientation\<close> of \<^verbatim>\<open>Display\<close>, and the
  \<^verbatim>\<open>_width\<close> and \<^verbatim>\<open>_height\<close> that \<^verbatim>\<open>get_shape\<close> reports.
\<close>

record display =
  d_orientation :: int
  d_width :: int
  d_height :: int

definition get_shape :: "display \<Rightarrow> int \<times> int" where
  "get_shape d = (d_width d, d_height d)"

text \<open>\<^verbatim>\<open>Display.set_orientation\<close>, inherited by every display that does not override it.\<close>

definition Display_set_orientation :: "display \<Rightarrow> int \<Rightarrow> error option \<times> display" where
  "Display_set_orientation d orientation =
     (if orientation \<notin> {0, 90, 180, 270} then (Some ValueError, d)
      else (None, d\<lparr>d_orientation := orientation\<rparr>))"

text \<open>\<^verbatim>\<open>NullDisplay.__init__\<close>: \<^verbatim>\<open>Display.__init__\<close>, then both sizes raised to at least 1.\<close>

definition NullDisplay_init :: "int \<Rightarrow> int \<Rightarrow> error + display" where
  "NullDisplay_init width height =
     Inr \<lparr>d_orientation = 0, d_width = max 1 width, d_height = max 1 height\<rparr>"

text \<open>\<^verbatim>\<open>NullDisplay.set_orientation\<close>: the override is \<^verbatim>\<open>pass\<close>.\<close>

definition NullDisplay_set_orientation :: "display \<Rightarrow> int \<Rightarrow> error option \<times> display" where
  "NullDisplay_set_orientation d orientation = (None, d)"

text \<open>
  \<^verbatim>\<open>_UnicornHat.set_orientation\<close> of \<^verbatim>\<open>pimoroni.py\<close>, which \<^verbatim>\<open>UnicornHatHD\<close>,
  \<^verbatim>\<open>UnicornHatMini\<close> and \<^verbatim>\<open>UnicornScrollHatMini\<close> inherit: the setter of \<^verbatim>\<open>Display\<close>,
  and when that has not raised, \<^verbatim>\<open>self._display.rotation(orientation)\<close> on the device.
  The device is a library outside the repository; what the setter asks of it is recorded
  as a \<open>device_call\<close>.
\<close>

datatype device_call = Rotation int

definition UnicornHat_set_orientation ::
  "display \<Rightarrow> int \<Rightarrow> error option \<times> display \<times> device_call list" where
  "UnicornHat_set_orientation d orientation =
     (case Display_set_orientation d orientation of
        (Some e, d') \<Rightarrow> (Some e, d', [])
      | (None, d') \<Rightarrow> (None, d', [Rotation orientation]))"

subsection \<open>The Canvas\<close>

text \<open>A cell of \<^verbatim>\<open>_canvas\<close>: red, green, blue and the fraction painted.\<close>

type_synonym pixel = "real \<times> real \<times> real \<times> real"

text \<open>
  \<^verbatim>\<open>_canvas\<close> is a numpy array of shape \<open>(display.width, display.height, 4)\<close>; it is
  modelled by the function from the two indices to the cell, read and written only at
  indices that \<open>np_index\<close> accepts.
\<close>

type_synonym buffer = "int \<Rightarrow> int \<Rightarrow> pixel"

text \<open>The calls \<^verbatim>\<open>display.clear()\<close> and \<^verbatim>\<open>display.set(x, y, r, g, b)\<close>.\<close>

datatype sink_call = SinkClear | SinkSet int int real real real

record canvas_state =
  x_sz :: int
  y_sz :: int
  display :: display
  c_scale :: real
  canvas :: buffer
  xwrap :: bool
  ywrap :: bool

text \<open>
  \<^verbatim>\<open>Canvas.__init__\<close>. \<^verbatim>\<open>numpy.zeros\<close> raises \<^verbatim>\<open>ValueError\<close> on a negative dimension.
\<close>

definition Canvas_init ::
  "display \<Rightarrow> int option \<Rightarrow> int option \<Rightarrow> bool \<Rightarrow> bool \<Rightarrow> error + canvas_state" where
  "Canvas_init d width height xw yw =
     (let width = (case width of None \<Rightarrow> d_width d | Some w \<Rightarrow> w);
          height = (case height of None \<Rightarrow> d_height d | Some h \<Rightarrow> h)
      in if width \<le> 0 then Inl ValueError
         else if height \<le> 0 then Inl ValueError
         else if d_width d < 0 \<or> d_height d < 0 then Inl ValueError
         else Inr \<lparr>x_sz = width, y_sz = height, display = d,
                   c_scale = min (of_int (d_width d) / of_int width)
                               (of_int (d_height d) / of_int height),
                   canvas = (\<lambda>x y. (0, 0, 0, 0)),
                   xwrap = xw, ywrap = yw\<rparr>)"

text \<open>\<^verbatim>\<open>Canvas.clear\<close>.\<close>

definition Canvas_clear :: "canvas_state \<Rightarrow> error option \<times> canvas_state \<times> sink_call list" where
  "Canvas_clear c = (None, c\<lparr>canvas := (\<lambda>x y. (0, 0, 0, 0))\<rparr>, [SinkClear])"

text \<open>The clamp of a colour channel at the head of \<^verbatim>\<open>Canvas.set\<close>.\<close>

definition clamp01 :: "real \<Rightarrow> real" where
  "clamp01 r = (if 0 \<le> r \<and> r \<le> 1 then r else min (max 0 r) 1)"

text \<open>
  The blending block of \<^verbatim>\<open>Canvas.set\<close>, which the source has twice (in the sub-pixel
  branch and in the inner loop): from the stored cell, the factor and the draw colour to
  the cell stored back and the colour passed to \<^verbatim>\<open>display.set\<close>.
\<close>

definition blend :: "pixel \<Rightarrow> real \<Rightarrow> real \<Rightarrow> real \<Rightarrow> real \<Rightarrow> pixel \<times> (real \<times> real \<times> real)" where
  "blend pixel factor dr dg db =
     (case pixel of (pr, pg, pb, pf) \<Rightarrow>
        let factor1 = 1 - factor;
            (pr, pg, pb, pf) =
              (if pf = 0 \<or> pf \<le> factor1
               then (pr + factor * dr, pg + factor * dg, pb + factor * db, factor + pf)
               else let pfactor1 = factor1 / pf
                    in (min (pfactor1 * pr + factor * dr) 1,
                        min (pfactor1 * pg + factor * dg) 1,
                        min (pfactor1 * pb + factor * db) 1,
                        1))
        in ((if pr < 1 then pr else 1, if pg < 1 then pg else 1,
             if pb < 1 then pb else 1, if pf < 1 then pf else 1),
            (pr, pg, pb)))"

text \<open>
  The loop state of \<^verbatim>\<open>Canvas.set\<close>: the buffer and the calls made on the display so far.
\<close>

type_synonym paint_state = "buffer \<times> sink_call list"

text \<open>
  Read \<^verbatim>\<open>canvas[px][py]\<close>, blend, store, and call \<^verbatim>\<open>display.set(px, py, pr, pg, pb)\<close>.
\<close>

definition paint ::
  "int \<Rightarrow> int \<Rightarrow> int \<Rightarrow> int \<Rightarrow> real \<Rightarrow> real \<Rightarrow> real \<Rightarrow> real \<Rightarrow> paint_state
     \<Rightarrow> error option \<times> paint_state" where
  "paint width height px py factor dr dg db st =
     (case st of (buf, calls) \<Rightarrow>
        (case np_index width px of
           None \<Rightarrow> (Some IndexError, st)
         | Some i \<Rightarrow>
             (case np_index height py of
                None \<Rightarrow> (Some IndexError, st)
              | Some j \<Rightarrow>
                  (case blend (buf i j) factor dr dg db of
                     (pixel, (pr, pg, pb)) \<Rightarrow>
                       (None, (buf(i := (buf i)(j := pixel)),
                               calls @ [SinkSet px py pr pg pb]))))))"

text \<open>The offsets \<^verbatim>\<open>(l_off, r_off)\<close> of the general branch.\<close>

definition offsets :: "real \<Rightarrow> real \<times> real" where
  "offsets scale =
     (let half = max 0 ((scale - 1) / 2)
      in if odd (py_int scale)
         then (let l_off = of_int (py_int half) in (l_off, scale - l_off))
         else (let r_off = of_int (py_int half) in (scale - r_off, r_off)))"

text \<open>The \<^verbatim>\<open>factor\<close> of the cell \<open>(px, py)\<close> before the test against zero and the clamp.\<close>

definition cell_area :: "real \<Rightarrow> real \<Rightarrow> real \<Rightarrow> real \<Rightarrow> int \<Rightarrow> int \<Rightarrow> real" where
  "cell_area dxl dxr dyt dyb px py =
     (let cxl = max dxl (of_int px + 0);
          cxr = min dxr (of_int px + 1);
          cyt = max dyt (of_int py + 0);
          cyb = min dyb (of_int py + 1)
      in \<bar>cxr - cxl\<bar> * \<bar>cyb - cyt\<bar>)"

text \<open>The wrap of one coordinate; \<open>None\<close> is the \<^verbatim>\<open>continue\<close>.\<close>

definition wrap_coord :: "bool \<Rightarrow> int \<Rightarrow> int \<Rightarrow> int option" where
  "wrap_coord wrap n p =
     (if p < 0 \<or> n \<le> p
      then (if wrap then (if p < 0 then Some (p + n) else Some (p - n)) else None)
      else Some p)"

text \<open>The body of the inner loop of the general branch, for the cell \<open>(px0, py0)\<close> (the source's \<^verbatim>\<open>px_\<close>, \<^verbatim>\<open>py_\<close>).\<close>

definition general_cell ::
  "int \<Rightarrow> int \<Rightarrow> bool \<Rightarrow> bool \<Rightarrow> real \<Rightarrow> real \<Rightarrow> real \<Rightarrow> real \<Rightarrow> real \<Rightarrow> real \<Rightarrow> real
     \<Rightarrow> int \<Rightarrow> int \<Rightarrow> paint_state \<Rightarrow> error option \<times> paint_state" where
  "general_cell width height xw yw dxl dxr dyt dyb dr dg db px0 py0 st =
     (let factor = cell_area dxl dxr dyt dyb px0 py0
      in if factor \<le> 0 then (None, st)
         else let factor = (if 1 < factor then 1 else factor)
              in (case wrap_coord xw width px0 of
                    None \<Rightarrow> (None, st)
                  | Some px \<Rightarrow>
                      (case wrap_coord yw height py0 of
                         None \<Rightarrow> (None, st)
                       | Some py \<Rightarrow> paint width height px py factor dr dg db st)))"

text \<open>\<^verbatim>\<open>Canvas.set\<close>.\<close>

definition Canvas_set ::
  "canvas_state \<Rightarrow> real \<Rightarrow> real \<Rightarrow> real \<Rightarrow> real \<Rightarrow> real \<Rightarrow> real
     \<Rightarrow> error option \<times> canvas_state \<times> sink_call list" where
  "Canvas_set c x y r g b s =
     (let width = d_width (display c);
          height = d_height (display c);
          scale = s * c_scale c
      in if scale \<le> 0 then (None, c, [])
         else
           let dx = x * c_scale c;
               dy = y * c_scale c;
               dr = clamp01 r;
               dg = clamp01 g;
               db = clamp01 b
           in if scale = 1 \<and> of_int (py_int dx) = dx \<and> of_int (py_int dy) = dy
                 \<and> 0 \<le> dx \<and> dx < of_int width \<and> 0 \<le> dy \<and> dy < of_int height
              then (None,
                    c\<lparr>canvas := (canvas c)(py_int dx := (canvas c (py_int dx))(py_int dy := (dr, dg, db, 1)))\<rparr>,
                    [SinkSet (py_int dx) (py_int dy) dr dg db])
              else if scale < 1 \<and> 0 \<le> dx \<and> dx < of_int width
                      \<and> 0 \<le> dy \<and> dy < of_int height
              then (case paint width height (py_int dx) (py_int dy) (scale ^ 2) dr dg db
                           (canvas c, []) of
                      (e, (buf, calls)) \<Rightarrow> (e, c\<lparr>canvas := buf\<rparr>, calls))
              else
                (case offsets scale of (l_off, r_off) \<Rightarrow>
                   let dxl = dx - l_off;
                       dxr = dx + r_off;
                       dyt = dy - l_off;
                       dyb = dy + r_off
                   in (case for_each
                              (\<lambda>px0. for_each
                                 (general_cell width height (xwrap c) (ywrap c)
                                    dxl dxr dyt dyb dr dg db px0)
                                 (range_incl (py_int dyt) (py_int dyb)))
                              (range_incl (py_int dxl) (py_int dxr))
                              (canvas c, []) of
                         (e, (buf, calls)) \<Rightarrow> (e, c\<lparr>canvas := buf\<rparr>, calls))))"

text \<open>
  A PIL image as \<^verbatim>\<open>Canvas.set_image\<close> uses it: \<^verbatim>\<open>image.size\<close> and
  \<^verbatim>\<open>image.getpixel\<close>, of which the first three components are read.
\<close>

record image =
  im_size :: "int \<times> int"
  getpixel :: "int \<times> int \<Rightarrow> int \<times> int \<times> int"

text \<open>\<^verbatim>\<open>range(n)\<close>.\<close>

definition range_py :: "int \<Rightarrow> int list" where
  "range_py n = [0..n - 1]"

text \<open>\<^verbatim>\<open>Canvas.set_image\<close>.\<close>

definition Canvas_set_image ::
  "canvas_state \<Rightarrow> image \<Rightarrow> error option \<times> canvas_state \<times> sink_call list" where
  "Canvas_set_image c img =
     (case get_shape (display c) of (dw, dh) \<Rightarrow>
      case im_size img of (iw, ih) \<Rightarrow>
        if iw \<le> 0 \<or> ih \<le> 0 then (Some ValueError, c, [])
        else
          let sw = (of_int dw :: real) / of_int iw;
              sh = (of_int dh :: real) / of_int ih;
              sz = max sw sh;
              sz = (if 1 < sz then of_int \<lceil>sz\<rceil> else sz)
          in (case for_each
                     (\<lambda>ix. for_each
                        (\<lambda>iy (c, calls).
                           let dx = py_round (of_int ix * sw);
                               dy = py_round (of_int iy * sh)
                           in (case getpixel img (ix, iy) of (r, g, b) \<Rightarrow>
                                 (case Canvas_set c (of_int dx) (of_int dy)
                                         (of_int r / 255) (of_int g / 255) (of_int b / 255) sz of
                                    (e, c', calls') \<Rightarrow> (e, (c', calls @ calls')))))
                        (range_py ih))
                     (range_py iw)
                     (c, []) of
                (e, (c', calls)) \<Rightarrow> (e, c', calls)))"

subsection \<open>Sequences of Canvas calls\<close>

datatype op = Clear | Set real real real real real real | SetImage image

definition run_op :: "canvas_state \<Rightarrow> op \<Rightarrow> error option \<times> canvas_state \<times> sink_call list" where
  "run_op c op =
     (case op of
        Clear \<Rightarrow> Canvas_clear c
      | Set x y r g b s \<Rightarrow> Canvas_set c x y r g b s
      | SetImage img \<Rightarrow> Canvas_set_image c img)"

text \<open>
  A caller makes the calls one after the other and goes on after a call that raised; the
  result is the Canvas and all the calls made on the display.
\<close>

fun run_ops :: "canvas_state \<Rightarrow> op list \<Rightarrow> canvas_state \<times> sink_call list" where
  "run_ops c [] = (c, [])"
| "run_ops c (op # ops) =
     (case run_op c op of
        (e, c', calls) \<Rightarrow>
          (case run_ops c' ops of (c'', calls') \<Rightarrow> (c'', calls @ calls')))"

subsection \<open>Invariants of a cell\<close>

text \<open>The invariant of the data model: everything in \<open>[0, 1]\<close>, and an unpainted cell is black.\<close>

definition pixel_ok :: "pixel \<Rightarrow> bool" where
  "pixel_ok p =
     (case p of (r, g, b, f) \<Rightarrow>
        0 \<le> r \<and> r \<le> 1 \<and> 0 \<le> g \<and> g \<le> 1 \<and> 0 \<le> b \<and> b \<le> 1 \<and> 0 \<le> f \<and> f \<le> 1
        \<and> (f = 0 \<longrightarrow> r = 0 \<and> g = 0 \<and> b = 0))"

text \<open>No channel above the coverage.\<close>

definition pixel_below :: "pixel \<Rightarrow> bool" where
  "pixel_below p = (case p of (r, g, b, f) \<Rightarrow> r \<le> f \<and> g \<le> f \<and> b \<le> f)"

text \<open>A call \<^verbatim>\<open>display.set\<close> whose colour does not exceed 1.\<close>

definition call_le1 :: "sink_call \<Rightarrow> bool" where
  "call_le1 k = (case k of SinkSet x y r g b \<Rightarrow> r \<le> 1 \<and> g \<le> 1 \<and> b \<le> 1 | _ \<Rightarrow> True)"

text \<open>The state a Canvas may be in: every cell within the invariants.\<close>

definition buffer_ok :: "buffer \<Rightarrow> bool" where
  "buffer_ok buf = (\<forall>x y. pixel_ok (buf x y) \<and> pixel_below (buf x y))"

definition st_ok :: "paint_state \<Rightarrow> bool" where
  "st_ok st = (case st of (buf, calls) \<Rightarrow> buffer_ok buf \<and> list_all call_le1 calls)"

text \<open>Two states of one Canvas: all but the buffer is the same.\<close>

definition same_setup :: "canvas_state \<Rightarrow> canvas_state \<Rightarrow> bool" where
  "same_setup c c' = (\<exists>buf. c' = c\<lparr>canvas := buf\<rparr>)"

subsection \<open>A concrete Canvas\<close>

text \<open>The Null display of 2 by 2 cells and the Canvas of the same logical size over it.\<close>

definition example_display :: display where
  "example_display = \<lparr>d_orientation = 0, d_width = 2, d_height = 2\<rparr>"

definition example_canvas :: canvas_state where
  "example_canvas =
     \<lparr>x_sz = 2, y_sz = 2, display = example_display, c_scale = 1,
      canvas = (\<lambda>x y. (0, 0, 0, 0)), xwrap = False, ywrap = False\<rparr>"

subsection \<open>The factor of a cell as geometry has it\<close>

text \<open>
  The area that the unit square of the cell \<open>(px, py)\<close> shares with the region
  \<open>[dxl, dxr] \<times> [dyt, dyb]\<close>, at most 1. This is the reading of the comment in the
  inner loop of \<^verbatim>\<open>Canvas.set\<close> (``the blending factor is the area of the display pixel
  covered''); it is not taken from the code, and is compared with \<open>cell_area\<close> below.
\<close>

definition overlap_factor :: "real \<Rightarrow> real \<Rightarrow> real \<Rightarrow> real \<Rightarrow> int \<Rightarrow> int \<Rightarrow> real" where
  "overlap_factor dxl dxr dyt dyb px py =
     min 1 (max 0 (min dxr (of_int px + 1) - max dxl (of_int px))
            * max 0 (min dyb (of_int py + 1) - max dyt (of_int py)))"

section \<open>The blending block keeps the invariants\<close>

lemma clamp01_range: "0 \<le> clamp01 r \<and> clamp01 r \<le> 1"
  by (simp add: clamp01_def)

lemma blend_add_step:
  fixes p f d k :: real
  assumes "0 \<le> p" "p \<le> f" "0 \<le> d" "d \<le> 1" "0 < k" "f + k \<le> 1"
  shows "0 \<le> p + k * d" "p + k * d \<le> k + f" "p + k * d \<le> 1"
proof -
  have kd: "0 \<le> k * d" "k * d \<le> k"
    using assms by (simp_all add: mult_left_le)
  show "0 \<le> p + k * d" using assms kd by linarith
  show "p + k * d \<le> k + f" using assms kd by linarith
  then show "p + k * d \<le> 1" using assms by linarith
qed

lemma blend_mix_step:
  fixes p f d k :: real
  assumes "0 \<le> p" "0 < f" "0 \<le> d" "0 < k" "k \<le> 1"
  shows "0 \<le> min ((1 - k) / f * p + k * d) 1"
proof -
  have "0 \<le> (1 - k) / f * p" using assms by simp
  moreover have "0 \<le> k * d" using assms by simp
  ultimately show ?thesis by simp
qed

lemma blend_inv:
  assumes ok: "pixel_ok p" and below: "pixel_below p"
    and k: "0 < k" "k \<le> 1"
    and d: "0 \<le> dr" "dr \<le> 1" "0 \<le> dg" "dg \<le> 1" "0 \<le> db" "db \<le> 1"
    and b: "blend p k dr dg db = (p', (r, g, b))"
  shows "pixel_ok p' \<and> pixel_below p' \<and> r \<le> 1 \<and> g \<le> 1 \<and> b \<le> 1"
proof -
  obtain pr pg pb pf where p: "p = (pr, pg, pb, pf)" by (cases p) auto
  have r0: "0 \<le> pr" "0 \<le> pg" "0 \<le> pb" "0 \<le> pf" "pf \<le> 1"
    and z: "pf = 0 \<Longrightarrow> pr = 0 \<and> pg = 0 \<and> pb = 0"
    and le: "pr \<le> pf" "pg \<le> pf" "pb \<le> pf"
    using ok below by (simp_all add: p pixel_ok_def pixel_below_def)
  show ?thesis
  proof (cases "pf = 0 \<or> pf \<le> 1 - k")
    case True
    then have fk: "pf + k \<le> 1" using k by auto
    note R = blend_add_step [OF r0(1) le(1) d(1,2) k(1) fk]
    note G = blend_add_step [OF r0(2) le(2) d(3,4) k(1) fk]
    note B = blend_add_step [OF r0(3) le(3) d(5,6) k(1) fk]
    have eq: "r = pr + k * dr" "g = pg + k * dg" "b = pb + k * db"
      "p' = (if r < 1 then r else 1, if g < 1 then g else 1, if b < 1 then b else 1,
             if k + pf < 1 then k + pf else 1)"
      using b True by (auto simp: blend_def p Let_def)
    have kf: "0 < k + pf" using k r0 by linarith
    show ?thesis
      using R G B kf fk unfolding eq(4) pixel_ok_def pixel_below_def eq(1,2,3)
      by auto
  next
    case False
    then have pos: "0 < pf" using r0 by auto
    note R = blend_mix_step [OF r0(1) pos d(1) k]
    note G = blend_mix_step [OF r0(2) pos d(3) k]
    note B = blend_mix_step [OF r0(3) pos d(5) k]
    have eq: "r = min ((1 - k) / pf * pr + k * dr) 1" "g = min ((1 - k) / pf * pg + k * dg) 1"
      "b = min ((1 - k) / pf * pb + k * db) 1"
      "p' = (if r < 1 then r else 1, if g < 1 then g else 1, if b < 1 then b else 1, 1)"
      using b False by (auto simp: blend_def p Let_def)
    have "r \<le> 1" "g \<le> 1" "b \<le> 1" "0 \<le> r" "0 \<le> g" "0 \<le> b"
      using R G B unfolding eq(1,2,3) by simp_all
    then show ?thesis
      unfolding eq(4) pixel_ok_def pixel_below_def by auto
  qed
qed

lemma blend_full:
  assumes ok: "pixel_ok p"
    and d: "0 \<le> dr" "dr \<le> 1" "0 \<le> dg" "dg \<le> 1" "0 \<le> db" "db \<le> 1"
  shows "blend p 1 dr dg db = ((dr, dg, db, 1), (dr, dg, db))"
proof -
  obtain pr pg pb pf where p: "p = (pr, pg, pb, pf)" by (cases p) auto
  have f: "0 \<le> pf" and z: "pf = 0 \<Longrightarrow> pr = 0 \<and> pg = 0 \<and> pb = 0"
    using ok by (simp_all add: p pixel_ok_def)
  show ?thesis
  proof (cases "pf = 0")
    case True
    then show ?thesis using z d by (simp add: blend_def p)
  next
    case False
    then have "\<not> (pf = 0 \<or> pf \<le> 1 - 1)" using f by simp
    then show ?thesis using d by (simp add: blend_def p)
  qed
qed

section \<open>The loops keep the invariants\<close>

lemma for_each_inv:
  assumes step: "\<And>a st e st'. P st \<Longrightarrow> body a st = (e, st') \<Longrightarrow> P st'"
    and init: "P st"
    and run: "for_each body xs st = (e, st')"
  shows "P st'"
  using init run
proof (induction xs arbitrary: st)
  case Nil
  then show ?case by simp
next
  case (Cons a xs)
  obtain e1 st1 where b: "body a st = (e1, st1)" by (cases "body a st") auto
  have P1: "P st1" using step [OF Cons.prems(1) b] .
  show ?case
  proof (cases e1)
    case None
    then have "for_each body xs st1 = (e, st')" using Cons.prems(2) b by simp
    then show ?thesis using Cons.IH [OF P1] by simp
  next
    case (Some err)
    then have "st' = st1" using Cons.prems(2) b by simp
    then show ?thesis using P1 by simp
  qed
qed

lemma paint_inv:
  assumes ok: "st_ok st"
    and k: "0 < k" "k \<le> 1"
    and d: "0 \<le> dr" "dr \<le> 1" "0 \<le> dg" "dg \<le> 1" "0 \<le> db" "db \<le> 1"
    and p: "paint w h px py k dr dg db st = (e, st')"
  shows "st_ok st'"
proof -
  obtain buf calls where st: "st = (buf, calls)" by (cases st) auto
  have bo: "buffer_ok buf" and co: "list_all call_le1 calls"
    using ok by (simp_all add: st st_ok_def)
  show ?thesis
  proof (cases "np_index w px")
    case None
    then have "st' = st" using p by (simp add: paint_def st)
    then show ?thesis using ok by simp
  next
    case (Some i)
    note I = this
    show ?thesis
    proof (cases "np_index h py")
      case None
      then have "st' = st" using p I by (simp add: paint_def st)
      then show ?thesis using ok by simp
    next
      case (Some j)
      obtain q r g b where bl: "blend (buf i j) k dr dg db = (q, (r, g, b))"
        by (cases "blend (buf i j) k dr dg db") auto
      have pij: "pixel_ok (buf i j)" "pixel_below (buf i j)"
        using bo by (simp_all add: buffer_ok_def)
      have q: "pixel_ok q \<and> pixel_below q \<and> r \<le> 1 \<and> g \<le> 1 \<and> b \<le> 1"
        using blend_inv [OF pij k d bl] .
      have st': "st' = (buf(i := (buf i)(j := q)), calls @ [SinkSet px py r g b])"
        using p I Some bl by (simp add: paint_def st)
      have "buffer_ok (buf(i := (buf i)(j := q)))"
        using bo q by (simp add: buffer_ok_def)
      moreover have "list_all call_le1 (calls @ [SinkSet px py r g b])"
        using co q by (simp add: call_le1_def)
      ultimately show ?thesis by (simp add: st' st_ok_def)
    qed
  qed
qed

lemma general_cell_inv:
  assumes ok: "st_ok st"
    and d: "0 \<le> dr" "dr \<le> 1" "0 \<le> dg" "dg \<le> 1" "0 \<le> db" "db \<le> 1"
    and g: "general_cell w h xw yw dxl dxr dyt dyb dr dg db px0 py0 st = (e, st')"
  shows "st_ok st'"
proof (cases "cell_area dxl dxr dyt dyb px0 py0 \<le> 0")
  case True
  then have "st' = st" using g by (simp add: general_cell_def)
  then show ?thesis using ok by simp
next
  case False
  define k where "k = (if 1 < cell_area dxl dxr dyt dyb px0 py0 then 1
                       else cell_area dxl dxr dyt dyb px0 py0)"
  have k: "0 < k" "k \<le> 1" using False by (auto simp: k_def)
  show ?thesis
  proof (cases "wrap_coord xw w px0")
    case None
    then have "st' = st" using g False by (simp add: general_cell_def)
    then show ?thesis using ok by simp
  next
    case (Some px)
    note X = this
    show ?thesis
    proof (cases "wrap_coord yw h py0")
      case None
      then have "st' = st" using g False X by (simp add: general_cell_def)
      then show ?thesis using ok by simp
    next
      case (Some py)
      then have "paint w h px py k dr dg db st = (e, st')"
        using g False X by (simp add: general_cell_def k_def Let_def)
      then show ?thesis using paint_inv [OF ok k d] by simp
    qed
  qed
qed

lemma Canvas_set_inv:
  assumes ok: "buffer_ok (canvas c)"
    and s: "Canvas_set c x y r g b s = (e, c', calls)"
  shows "buffer_ok (canvas c') \<and> list_all call_le1 calls \<and> (\<exists>buf. c' = c\<lparr>canvas := buf\<rparr>)"
proof -
  define w h k where "w = d_width (display c)" and "h = d_height (display c)"
    and "k = s * c_scale c"
  define dx dy where "dx = x * c_scale c" and "dy = y * c_scale c"
  note d = clamp01_range [of r, THEN conjunct1] clamp01_range [of r, THEN conjunct2]
           clamp01_range [of g, THEN conjunct1] clamp01_range [of g, THEN conjunct2]
           clamp01_range [of b, THEN conjunct1] clamp01_range [of b, THEN conjunct2]
  have st0: "st_ok (canvas c, [])" using ok by (simp add: st_ok_def)
  consider (nop) "k \<le> 0"
    | (exact) "0 < k" "k = 1 \<and> of_int (py_int dx) = dx \<and> of_int (py_int dy) = dy
                 \<and> 0 \<le> dx \<and> dx < of_int w \<and> 0 \<le> dy \<and> dy < of_int h"
    | (sub) "0 < k" "\<not> (k = 1 \<and> of_int (py_int dx) = dx \<and> of_int (py_int dy) = dy
                 \<and> 0 \<le> dx \<and> dx < of_int w \<and> 0 \<le> dy \<and> dy < of_int h)"
            "k < 1 \<and> 0 \<le> dx \<and> dx < of_int w \<and> 0 \<le> dy \<and> dy < of_int h"
    | (general) "0 < k" "\<not> (k = 1 \<and> of_int (py_int dx) = dx \<and> of_int (py_int dy) = dy
                 \<and> 0 \<le> dx \<and> dx < of_int w \<and> 0 \<le> dy \<and> dy < of_int h)"
            "\<not> (k < 1 \<and> 0 \<le> dx \<and> dx < of_int w \<and> 0 \<le> dy \<and> dy < of_int h)"
    by fastforce
  then show ?thesis
  proof cases
    case nop
    then have "c' = c" "calls = []"
      using s by (simp_all add: Canvas_set_def Let_def k_def)
    then show ?thesis using ok by (auto intro: exI [of _ "canvas c"])
  next
    case exact
    have c': "c' = c\<lparr>canvas := (canvas c)(py_int dx := (canvas c (py_int dx))
                 (py_int dy := (clamp01 r, clamp01 g, clamp01 b, 1)))\<rparr>"
      and calls: "calls = [SinkSet (py_int dx) (py_int dy) (clamp01 r) (clamp01 g) (clamp01 b)]"
      using s exact unfolding Canvas_set_def Let_def k_def dx_def dy_def w_def h_def
      by simp_all
    have "pixel_ok (clamp01 r, clamp01 g, clamp01 b, 1)"
      "pixel_below (clamp01 r, clamp01 g, clamp01 b, 1)"
      using d by (simp_all add: pixel_ok_def pixel_below_def)
    then have "buffer_ok (canvas c')"
      using ok by (simp add: c' buffer_ok_def)
    moreover have "list_all call_le1 calls"
      using d by (simp add: calls call_le1_def)
    ultimately show ?thesis using c' by blast
  next
    case sub
    obtain e1 buf1 calls1 where
      p: "paint w h (py_int dx) (py_int dy) (k ^ 2) (clamp01 r) (clamp01 g) (clamp01 b)
            (canvas c, []) = (e1, (buf1, calls1))"
      by (metis prod.exhaust)
    have c': "c' = c\<lparr>canvas := buf1\<rparr>" "calls = calls1"
      using s sub p unfolding Canvas_set_def Let_def k_def dx_def dy_def w_def h_def
      by simp_all
    have k2: "0 < k ^ 2" "k ^ 2 \<le> 1"
      using sub by (simp_all add: power_le_one)
    have "st_ok (buf1, calls1)" using paint_inv [OF st0 k2 d p] .
    then show ?thesis using c' by (auto simp: st_ok_def)
  next
    case general
    obtain l_off r_off where off: "offsets k = (l_off, r_off)" by (cases "offsets k") auto
    define body where "body = (\<lambda>px0. for_each
         (general_cell w h (xwrap c) (ywrap c) (dx - l_off) (dx + r_off) (dy - l_off) (dy + r_off)
            (clamp01 r) (clamp01 g) (clamp01 b) px0)
         (range_incl (py_int (dy - l_off)) (py_int (dy + r_off))))"
    obtain e1 buf1 calls1 where
      f: "for_each body (range_incl (py_int (dx - l_off)) (py_int (dx + r_off))) (canvas c, [])
            = (e1, (buf1, calls1))"
      by (metis prod.exhaust)
    have c': "c' = c\<lparr>canvas := buf1\<rparr>" "calls = calls1"
      using s general f off
      unfolding Canvas_set_def Let_def k_def dx_def dy_def w_def h_def body_def
      by simp_all
    have cell: "\<And>px0 a st e st'. st_ok st \<Longrightarrow>
        general_cell w h (xwrap c) (ywrap c) (dx - l_off) (dx + r_off) (dy - l_off) (dy + r_off)
          (clamp01 r) (clamp01 g) (clamp01 b) px0 a st = (e, st') \<Longrightarrow> st_ok st'"
      by (rule general_cell_inv [OF _ d])
    have inner: "st_ok st'" if "st_ok st" and "body a st = (e, st')" for a st e st'
      using for_each_inv [where P = st_ok, OF cell that(1) that(2) [unfolded body_def]] .
    have "st_ok (buf1, calls1)"
      using for_each_inv [where P = st_ok, OF inner st0 f] .
    then show ?thesis using c' by (auto simp: st_ok_def)
  qed
qed

section \<open>Every call keeps the invariants\<close>

lemma same_setup_refl: "same_setup c c"
  by (auto simp: same_setup_def intro: exI [of _ "canvas c"])

lemma same_setup_trans: "same_setup a b \<Longrightarrow> same_setup b c \<Longrightarrow> same_setup a c"
  by (auto simp: same_setup_def)

lemma Canvas_set_image_inv:
  assumes ok: "buffer_ok (canvas c)"
    and s: "Canvas_set_image c img = (e, c', calls)"
  shows "buffer_ok (canvas c') \<and> list_all call_le1 calls \<and> same_setup c c'"
proof -
  obtain dw dh where sh: "get_shape (display c) = (dw, dh)" by (cases "get_shape (display c)") auto
  obtain iw ih where sz: "im_size img = (iw, ih)" by (cases "im_size img") auto
  show ?thesis
  proof (cases "iw \<le> 0 \<or> ih \<le> 0")
    case True
    then have "c' = c" "calls = []"
      using s by (simp_all add: Canvas_set_image_def sh sz)
    then show ?thesis using ok by (simp add: same_setup_refl)
  next
    case False
    define P where "P = (\<lambda>st :: canvas_state \<times> sink_call list.
       buffer_ok (canvas (fst st)) \<and> list_all call_le1 (snd st) \<and> same_setup c (fst st))"
    define sw sh' where "sw = (of_int dw :: real) / of_int iw"
      and "sh' = (of_int dh :: real) / of_int ih"
    define sz' where "sz' = (if 1 < max sw sh' then of_int \<lceil>max sw sh'\<rceil> else max sw sh')"
    define cell where "cell = (\<lambda>ix iy (st :: canvas_state \<times> sink_call list).
        case st of (c, calls) \<Rightarrow>
          let dx = py_round (of_int ix * sw);
              dy = py_round (of_int iy * sh')
          in (case getpixel img (ix, iy) of (r, g, b) \<Rightarrow>
                (case Canvas_set c (of_int dx) (of_int dy)
                        (of_int r / 255) (of_int g / 255) (of_int b / 255) sz' of
                   (e, c', calls') \<Rightarrow> (e, (c', calls @ calls')))))"
    have step: "P st'" if "P st" and "cell ix iy st = (e, st')" for ix iy st e st'
    proof -
      obtain c1 calls1 where st: "st = (c1, calls1)" by (cases st) auto
      obtain r g b where px: "getpixel img (ix, iy) = (r, g, b)"
        by (cases "getpixel img (ix, iy)") auto
      obtain e2 c2 calls2 where
        cs: "Canvas_set c1 (of_int (py_round (of_int ix * sw))) (of_int (py_round (of_int iy * sh')))
               (of_int r / 255) (of_int g / 255) (of_int b / 255) sz' = (e2, c2, calls2)"
        by (metis prod.exhaust)
      have st': "st' = (c2, calls1 @ calls2)"
        using that(2) by (simp add: cell_def st px cs Let_def)
      have ok1: "buffer_ok (canvas c1)" using that(1) by (simp add: P_def st)
      note I = Canvas_set_inv [OF ok1 cs]
      have "same_setup c c2"
        using that(1) I by (auto simp: P_def st same_setup_def)
      then show ?thesis using I that(1) by (simp add: P_def st st')
    qed
    have row: "P st'" if "P st" and "for_each (cell ix) ys st = (e, st')" for ix ys st e st'
      using for_each_inv [where P = P and body = "cell ix", OF step that] .
    obtain e1 c1 calls1 where
      f: "for_each (\<lambda>ix. for_each (cell ix) (range_py ih)) (range_py iw) (c, []) = (e1, (c1, calls1))"
      by (metis prod.exhaust)
    have P0: "P (c, [])" using ok by (simp add: P_def same_setup_refl)
    have "P (c1, calls1)"
      using for_each_inv [where P = P, OF row P0 f] .
    moreover have "c' = c1" "calls = calls1"
      using s False f unfolding Canvas_set_image_def sh sz Let_def cell_def sw_def sh'_def sz'_def
      by simp_all
    ultimately show ?thesis by (simp add: P_def)
  qed
qed

lemma run_op_inv:
  assumes ok: "buffer_ok (canvas c)"
    and s: "run_op c op = (e, c', calls)"
  shows "buffer_ok (canvas c') \<and> list_all call_le1 calls \<and> same_setup c c'"
proof (cases op)
  case Clear
  then have "c' = c\<lparr>canvas := (\<lambda>x y. (0, 0, 0, 0))\<rparr>" "calls = [SinkClear]"
    using s by (simp_all add: run_op_def Canvas_clear_def)
  then show ?thesis
    by (auto simp: buffer_ok_def pixel_ok_def pixel_below_def call_le1_def same_setup_def)
next
  case (Set x y r g b sz)
  then have "Canvas_set c x y r g b sz = (e, c', calls)" using s by (simp add: run_op_def)
  then show ?thesis using Canvas_set_inv [OF ok] by (simp add: same_setup_def)
next
  case (SetImage img)
  then have "Canvas_set_image c img = (e, c', calls)" using s by (simp add: run_op_def)
  then show ?thesis using Canvas_set_image_inv [OF ok] by simp
qed

lemma run_ops_inv:
  assumes "buffer_ok (canvas c)" and "run_ops c ops = (c', calls)"
  shows "buffer_ok (canvas c') \<and> list_all call_le1 calls \<and> same_setup c c'"
  using assms
proof (induction ops arbitrary: c c' calls)
  case Nil
  then show ?case by (simp add: same_setup_refl)
next
  case (Cons op ops)
  obtain e1 c1 calls1 where o: "run_op c op = (e1, c1, calls1)" by (metis prod.exhaust)
  obtain c2 calls2 where r: "run_ops c1 ops = (c2, calls2)" by (cases "run_ops c1 ops") auto
  have eq: "c' = c2" "calls = calls1 @ calls2" using Cons.prems(2) o r by simp_all
  note A = run_op_inv [OF Cons.prems(1) o]
  note B = Cons.IH [OF A [THEN conjunct1] r]
  show ?case using A B by (auto simp: eq intro: same_setup_trans)
qed

lemma Canvas_init_ok:
  assumes "Canvas_init d w h xw yw = Inr c"
  shows "buffer_ok (canvas c) \<and> display c = d \<and> xwrap c = xw \<and> ywrap c = yw
         \<and> 0 \<le> d_width d \<and> 0 \<le> d_height d"
  using assms
  by (auto simp: Canvas_init_def Let_def buffer_ok_def pixel_ok_def pixel_below_def
           split: if_splits)

lemma Canvas_init_scale:
  assumes "Canvas_init d w h xw yw = Inr c"
  shows "c_scale c = 0 \<or> 0 < d_width d"
proof (cases "d_width d = 0")
  case True
  have "min 0 (real_of_int a / real_of_int b) = 0" if "0 \<le> a" "0 < b" for a b :: int
    using that by simp
  then show ?thesis
    using assms True
    by (auto simp: Canvas_init_def Let_def split: if_splits option.splits)
next
  case False
  then show ?thesis
    using assms by (auto simp: Canvas_init_def Let_def split: if_splits)
qed

section \<open>The exceptions of the drawing calls\<close>

text \<open>The only exception \<^verbatim>\<open>Canvas.set\<close> can raise is the \<^verbatim>\<open>IndexError\<close> of the buffer.\<close>

lemma for_each_error:
  assumes step: "\<And>a st e st'. body a st = (Some e, st') \<Longrightarrow> Q e"
    and run: "for_each body xs st = (Some e, st')"
  shows "Q e"
  using run
proof (induction xs arbitrary: st)
  case Nil
  then show ?case by simp
next
  case (Cons a xs)
  obtain e1 st1 where b: "body a st = (e1, st1)" by (cases "body a st") auto
  show ?case
  proof (cases e1)
    case None
    then have "for_each body xs st1 = (Some e, st')" using Cons.prems b by simp
    then show ?thesis by (rule Cons.IH)
  next
    case (Some err)
    then have "body a st = (Some e, st')" using Cons.prems b by simp
    then show ?thesis by (rule step)
  qed
qed

lemma paint_error: "paint w h px py k dr dg db st = (Some e, st') \<Longrightarrow> e = IndexError"
  by (auto simp: paint_def split: prod.splits option.splits)

lemma general_cell_error:
  "general_cell w h xw yw dxl dxr dyt dyb dr dg db px0 py0 st = (Some e, st') \<Longrightarrow> e = IndexError"
  by (auto simp: general_cell_def Let_def split: if_splits option.splits dest: paint_error)

lemma Canvas_set_error:
  assumes "Canvas_set c x y r g b s = (Some e, c', calls)"
  shows "e = IndexError"
proof -
  have inner: "e = IndexError"
    if "for_each (general_cell w h xw yw dxl dxr dyt dyb dr dg db px0) ys st = (Some e, st')"
    for w h xw yw dxl dxr dyt dyb dr dg db px0 ys st st' e
    using that by (rule for_each_error [rotated]) (rule general_cell_error)
  have outer: "e = IndexError"
    if "for_each (\<lambda>px0. for_each (general_cell w h xw yw dxl dxr dyt dyb dr dg db px0) ys)
          xs st = (Some e, st')"
    for w h xw yw dxl dxr dyt dyb dr dg db xs ys st st' e
    using that by (rule for_each_error [rotated]) (rule inner)
  show ?thesis
    using assms
    by (auto simp: Canvas_set_def Let_def split: if_splits prod.splits
             dest: paint_error outer)
qed

lemma Canvas_set_image_error:
  assumes sz: "im_size img = (iw, ih)" and pos: "0 < iw" "0 < ih"
    and s: "Canvas_set_image c img = (Some e, c', calls)"
  shows "e = IndexError"
proof -
  obtain dw dh where sh: "get_shape (display c) = (dw, dh)" by (cases "get_shape (display c)") auto
  define sw sh' where "sw = (of_int dw :: real) / of_int iw"
    and "sh' = (of_int dh :: real) / of_int ih"
  define sz' where "sz' = (if 1 < max sw sh' then of_int \<lceil>max sw sh'\<rceil> else max sw sh')"
  define cell where "cell = (\<lambda>ix iy (st :: canvas_state \<times> sink_call list).
      case st of (c, calls) \<Rightarrow>
        let dx = py_round (of_int ix * sw);
            dy = py_round (of_int iy * sh')
        in (case getpixel img (ix, iy) of (r, g, b) \<Rightarrow>
              (case Canvas_set c (of_int dx) (of_int dy)
                      (of_int r / 255) (of_int g / 255) (of_int b / 255) sz' of
                 (e, c', calls') \<Rightarrow> (e, (c', calls @ calls')))))"
  have step: "e = IndexError" if "cell ix iy st = (Some e, st')" for ix iy st st' e
    using that
    by (auto simp: cell_def Let_def split: prod.splits dest: Canvas_set_error)
  have row: "e = IndexError" if "for_each (cell ix) ys st = (Some e, st')" for ix ys st st' e
    using that by (rule for_each_error [rotated]) (rule step)
  obtain e1 c1 calls1 where
    f: "for_each (\<lambda>ix. for_each (cell ix) (range_py ih)) (range_py iw) (c, []) = (e1, (c1, calls1))"
    by (metis prod.exhaust)
  have "e1 = Some e"
    using s pos f unfolding Canvas_set_image_def sh sz Let_def cell_def sw_def sh'_def sz'_def
    by simp
  then have "for_each (\<lambda>ix. for_each (cell ix) (range_py ih)) (range_py iw) (c, [])
               = (Some e, (c1, calls1))"
    using f by simp
  then show ?thesis by (rule for_each_error [rotated]) (rule row)
qed

section \<open>A unit brush on an integral centre\<close>

text \<open>The direct branch of \<^verbatim>\<open>Canvas.set\<close>.\<close>

lemma Canvas_set_exact:
  assumes "s * c_scale c = 1"
    and "x * c_scale c = of_int i" "y * c_scale c = of_int j"
    and "0 \<le> i" "i < d_width (display c)" "0 \<le> j" "j < d_height (display c)"
  shows "Canvas_set c x y r g b s =
           (None,
            c\<lparr>canvas := (canvas c)(i := (canvas c i)(j := (clamp01 r, clamp01 g, clamp01 b, 1)))\<rparr>,
            [SinkSet i j (clamp01 r) (clamp01 g) (clamp01 b)])"
proof -
  have "py_int (of_int i) = i" "py_int (of_int j) = j"
    using assms by (simp_all add: py_int_def)
  then show ?thesis
    using assms by (simp add: Canvas_set_def Let_def)
qed

lemma py_int_of_int: "py_int (of_int i) = i"
  by (simp add: py_int_def)

lemma range_incl_two: "range_incl i (i + 1) = [i, i + 1]"
  by (simp add: range_incl_def upto.simps)

lemma offsets_one: "offsets 1 = (0, 1)"
  by (simp add: offsets_def py_int_def)

text \<open>
  The general branch for the unit square whose corner is the integral point \<open>(i, j)\<close>: of
  the four cells the loops visit, only \<open>(i, j)\<close> has a positive factor, and it is 1.
\<close>

lemma cell_area_unit:
  "cell_area (of_int i) (of_int i + 1) (of_int j) (of_int j + 1) i j = 1"
  "cell_area (of_int i) (of_int i + 1) (of_int j) (of_int j + 1) i (j + 1) = 0"
  "cell_area (of_int i) (of_int i + 1) (of_int j) (of_int j + 1) (i + 1) j = 0"
  "cell_area (of_int i) (of_int i + 1) (of_int j) (of_int j + 1) (i + 1) (j + 1) = 0"
  by (simp_all add: cell_area_def Let_def)

lemma general_unit_loop:
  "for_each
     (\<lambda>px0. for_each
        (general_cell w h xw yw (of_int i) (of_int i + 1) (of_int j) (of_int j + 1) dr dg db px0)
        [j, j + 1])
     [i, i + 1] st
   = (case wrap_coord xw w i of
        None \<Rightarrow> (None, st)
      | Some px \<Rightarrow>
          (case wrap_coord yw h j of
             None \<Rightarrow> (None, st)
           | Some py \<Rightarrow> paint w h px py 1 dr dg db st))"
proof -
  have z: "general_cell w h xw yw (of_int i) (of_int i + 1) (of_int j) (of_int j + 1) dr dg db
             px0 py0 s = (None, s)"
    if "cell_area (of_int i) (of_int i + 1) (of_int j) (of_int j + 1) px0 py0 = 0" for px0 py0 s
    using that by (simp add: general_cell_def)
  have o: "general_cell w h xw yw (of_int i) (of_int i + 1) (of_int j) (of_int j + 1) dr dg db
             i j st =
           (case wrap_coord xw w i of
              None \<Rightarrow> (None, st)
            | Some px \<Rightarrow>
                (case wrap_coord yw h j of
                   None \<Rightarrow> (None, st)
                 | Some py \<Rightarrow> paint w h px py 1 dr dg db st))"
    by (simp add: general_cell_def cell_area_unit(1))
  obtain e st1 where r: "general_cell w h xw yw (of_int i) (of_int i + 1) (of_int j) (of_int j + 1)
      dr dg db i j st = (e, st1)"
    by (cases "general_cell w h xw yw (of_int i) (of_int i + 1) (of_int j) (of_int j + 1)
      dr dg db i j st") auto
  show ?thesis
    unfolding o [symmetric] r
    by (cases e) (simp_all add: r z [OF cell_area_unit(2)] z [OF cell_area_unit(3)]
                     z [OF cell_area_unit(4)])
qed

lemma Canvas_set_unit_general:
  assumes s: "s * c_scale c = 1"
    and x: "x * c_scale c = of_int i" and y: "y * c_scale c = of_int j"
    and out: "\<not> (0 \<le> i \<and> i < d_width (display c) \<and> 0 \<le> j \<and> j < d_height (display c))"
  shows "Canvas_set c x y r g b s =
     (case (case wrap_coord (xwrap c) (d_width (display c)) i of
              None \<Rightarrow> (None, (canvas c, []))
            | Some px \<Rightarrow>
                (case wrap_coord (ywrap c) (d_height (display c)) j of
                   None \<Rightarrow> (None, (canvas c, []))
                 | Some py \<Rightarrow> paint (d_width (display c)) (d_height (display c)) px py 1
                               (clamp01 r) (clamp01 g) (clamp01 b) (canvas c, []))) of
        (e, (buf, calls)) \<Rightarrow> (e, c\<lparr>canvas := buf\<rparr>, calls))"
proof -
  have ri: "range_incl (py_int (of_int i)) (py_int (of_int i + 1)) = [i, i + 1]"
    using py_int_of_int [of "i + 1"] by (simp add: py_int_of_int range_incl_two)
  have rj: "range_incl (py_int (of_int j)) (py_int (of_int j + 1)) = [j, j + 1]"
    using py_int_of_int [of "j + 1"] by (simp add: py_int_of_int range_incl_two)
  show ?thesis
    using out
    by (auto simp add: Canvas_set_def Let_def s x y offsets_one ri rj general_unit_loop
             simp del: for_each.simps)
qed

section \<open>The factor of the general branch\<close>

text \<open>
  Where the general branch is entered the effective size is positive, so the truncations
  in \<open>offsets\<close> are floors.
\<close>

lemma offsets_floor:
  assumes "0 < k"
  shows "offsets k =
           (if odd \<lfloor>k\<rfloor>
            then (of_int \<lfloor>max 0 ((k - 1) / 2)\<rfloor>, k - of_int \<lfloor>max 0 ((k - 1) / 2)\<rfloor>)
            else (k - of_int \<lfloor>max 0 ((k - 1) / 2)\<rfloor>, of_int \<lfloor>max 0 ((k - 1) / 2)\<rfloor>))"
proof -
  have "py_int k = \<lfloor>k\<rfloor>" using assms by (simp add: py_int_def)
  moreover have "py_int (max 0 ((k - 1) / 2)) = \<lfloor>max 0 ((k - 1) / 2)\<rfloor>"
    by (simp add: py_int_def)
  ultimately show ?thesis by (simp add: offsets_def Let_def)
qed

text \<open>
  A cell that the loop visits on one axis touches the interval on that axis when the
  upper end of the interval is not negative; then the width the code computes is the
  width of the intersection.
\<close>

lemma visited_touches:
  assumes "0 \<le> hi" and "p \<in> set (range_incl (py_int lo) (py_int hi))"
  shows "of_int p \<le> hi \<and> lo \<le> of_int p + 1"
proof -
  have p: "py_int lo \<le> p" "p \<le> py_int hi"
    using assms(2) by (simp_all add: range_incl_def)
  have "of_int p \<le> hi"
    using p(2) assms(1) by (simp add: py_int_def le_floor_iff)
  moreover have "lo \<le> of_int p + 1"
  proof (cases "lo < 0")
    case True
    then have "\<lceil>lo\<rceil> \<le> p" using p(1) by (simp add: py_int_def)
    then have "lo \<le> of_int p" by (simp add: ceiling_le_iff)
    then show ?thesis by linarith
  next
    case False
    then have "\<lfloor>lo\<rfloor> \<le> p" using p(1) by (simp add: py_int_def)
    then have "of_int \<lfloor>lo\<rfloor> \<le> (of_int p :: real)" by simp
    then show ?thesis by linarith
  qed
  ultimately show ?thesis by simp
qed

lemma width_is_overlap:
  fixes lo hi :: real
  assumes "lo \<le> hi" "of_int p \<le> hi" "lo \<le> of_int p + 1"
  shows "\<bar>min hi (of_int p + 1) - max lo (of_int p + 0)\<bar>
           = max 0 (min hi (of_int p + 1) - max lo (of_int p))"
  using assms by (simp add: min_def max_def)

lemma cell_area_is_overlap:
  assumes "dxl \<le> dxr" "dyt \<le> dyb" "0 \<le> dxr" "0 \<le> dyb"
    and "px \<in> set (range_incl (py_int dxl) (py_int dxr))"
    and "py \<in> set (range_incl (py_int dyt) (py_int dyb))"
  shows "(if 1 < cell_area dxl dxr dyt dyb px py then 1 else cell_area dxl dxr dyt dyb px py)
           = overlap_factor dxl dxr dyt dyb px py"
proof -
  note X = visited_touches [OF assms(3,5)]
  note Y = visited_touches [OF assms(4,6)]
  have "cell_area dxl dxr dyt dyb px py =
          max 0 (min dxr (of_int px + 1) - max dxl (of_int px))
          * max 0 (min dyb (of_int py + 1) - max dyt (of_int py))"
    unfolding cell_area_def Let_def
    using width_is_overlap [OF assms(1) X [THEN conjunct1] X [THEN conjunct2]]
      width_is_overlap [OF assms(2) Y [THEN conjunct1] Y [THEN conjunct2]]
    by simp
  then show ?thesis by (simp add: overlap_factor_def min_def)
qed

section \<open>Concrete runs\<close>

lemma example_init:
  "NullDisplay_init 2 2 = Inr example_display
   \<and> Canvas_init example_display None None False False = Inr example_canvas"
  by (simp add: NullDisplay_init_def Canvas_init_def example_display_def example_canvas_def)

lemmas eval_defs = Canvas_set_def offsets_def py_int_def range_incl_def clamp01_def
  upto.simps ceiling_def Let_def general_cell_def cell_area_def wrap_coord_def paint_def
  np_index_def blend_def

text \<open>
  The scenario of a unit brush centred on the corner shared by four cells: each of the
  four receives a quarter.
\<close>

lemma example_half_pixel:
  "Canvas_set example_canvas (1 / 2) (1 / 2) 0 1 0 1 =
     (None,
      example_canvas\<lparr>canvas := (\<lambda>x y. if (x = 0 \<or> x = 1) \<and> (y = 0 \<or> y = 1)
                                       then (0, 1 / 4, 0, 1 / 4) else (0, 0, 0, 0))\<rparr>,
      [SinkSet 0 0 0 (1 / 4) 0, SinkSet 0 1 0 (1 / 4) 0,
       SinkSet 1 0 0 (1 / 4) 0, SinkSet 1 1 0 (1 / 4) 0])"
  apply (simp add: example_canvas_def example_display_def eval_defs)
  apply (auto simp: fun_eq_iff)
  done

lemma example_clear: "example_canvas\<lparr>canvas := \<lambda>x y. (0, 0, 0, 0)\<rparr> = example_canvas"
  by (simp add: example_canvas_def)

section \<open>The claims\<close>

text \<open>
  C1. For every Canvas and every sequence of \<^verbatim>\<open>clear\<close>, \<^verbatim>\<open>set\<close> and \<^verbatim>\<open>set_image\<close>
  calls, every entry of the buffer has its coverage and its three channels within
  \<open>[0, 1]\<close> after every call, and an entry whose coverage is 0 has all three channels 0.
  The list of calls is arbitrary, so the statement holds after each of them; a call that
  raised counts as well.
\<close>

theorem C1_state_in_range:
  assumes "Canvas_init d w h xw yw = Inr c0"
    and "run_ops c0 ops = (c, calls)"
    and "0 \<le> x" "x < d_width d" "0 \<le> y" "y < d_height d"
  shows "pixel_ok (canvas c x y)"
proof -
  have "buffer_ok (canvas c0)" using Canvas_init_ok [OF assms(1)] by simp
  then have "buffer_ok (canvas c)" using run_ops_inv [OF _ assms(2)] by simp
  then show ?thesis by (simp add: buffer_ok_def)
qed

theorem C1_state_in_range_witness:
  "Canvas_init example_display None None False False = Inr example_canvas
   \<and> canvas (fst (run_ops example_canvas
                [Set (1 / 2) (1 / 2) 0 1 0 1, Clear, Set (1 / 2) (1 / 2) 0 1 0 1])) 1 1
       = (0, 1 / 4, 0, 1 / 4)
   \<and> pixel_ok (0, 1 / 4, 0, 1 / 4)"
proof -
  let ?ops = "[Set (1 / 2) (1 / 2) 0 1 0 1, Clear, Set (1 / 2) (1 / 2) 0 1 0 1]"
  have init: "Canvas_init example_display None None False False = Inr example_canvas"
    using example_init by simp
  have val: "canvas (fst (run_ops example_canvas ?ops)) 1 1 = (0, 1 / 4, 0, 1 / 4)"
    by (simp add: run_op_def example_half_pixel Canvas_clear_def example_clear)
  have "pixel_ok (canvas (fst (run_ops example_canvas ?ops)) 1 1)"
    using C1_state_in_range [OF init surjective_pairing, of 1 1 ?ops]
    by (simp add: example_display_def)
  then show ?thesis using init val by simp
qed

text \<open>
  C2. Whatever state a pixel of the buffer is in, one application of the blending block
  with factor exactly 1 and a clamped draw colour \<open>(dr, dg, db)\<close> stores coverage 1 and the
  colour \<open>(dr, dg, db)\<close>, and passes that colour to the display. The direct branch of
  \<^verbatim>\<open>Canvas.set\<close> (effective size 1, integral centre within the display) stores the
  same cell without reading the old one.
\<close>

theorem C2_full_factor_overwrites:
  assumes "Canvas_init d w h xw yw = Inr c0"
    and "run_ops c0 ops = (c, calls)"
    and "0 \<le> dr" "dr \<le> 1" "0 \<le> dg" "dg \<le> 1" "0 \<le> db" "db \<le> 1"
  shows "blend (canvas c px py) 1 dr dg db = ((dr, dg, db, 1), (dr, dg, db))
         \<and> (s * c_scale c = 1 \<and> x * c_scale c = of_int px \<and> y * c_scale c = of_int py
              \<and> 0 \<le> px \<and> px < d_width d \<and> 0 \<le> py \<and> py < d_height d
              \<and> clamp01 r = dr \<and> clamp01 g = dg \<and> clamp01 b = db
            \<longrightarrow> Canvas_set c x y r g b s =
                  (None, c\<lparr>canvas := (canvas c)(px := (canvas c px)(py := (dr, dg, db, 1)))\<rparr>,
                   [SinkSet px py dr dg db]))"
proof -
  have ok0: "buffer_ok (canvas c0)" and d0: "display c0 = d"
    using Canvas_init_ok [OF assms(1)] by simp_all
  have I: "buffer_ok (canvas c)" "same_setup c0 c"
    using run_ops_inv [OF ok0 assms(2)] by simp_all
  have dc: "display c = d" using I(2) d0 by (auto simp: same_setup_def)
  have "pixel_ok (canvas c px py)" using I(1) by (simp add: buffer_ok_def)
  then have A: "blend (canvas c px py) 1 dr dg db = ((dr, dg, db, 1), (dr, dg, db))"
    using assms(3-8) by (rule blend_full)
  have B: "Canvas_set c x y r g b s =
             (None, c\<lparr>canvas := (canvas c)(px := (canvas c px)(py := (dr, dg, db, 1)))\<rparr>,
              [SinkSet px py dr dg db])"
    if "s * c_scale c = 1" "x * c_scale c = of_int px" "y * c_scale c = of_int py"
      "0 \<le> px" "px < d_width d" "0 \<le> py" "py < d_height d"
      "clamp01 r = dr" "clamp01 g = dg" "clamp01 b = db"
    using Canvas_set_exact [of s c x px y py r g b] that dc by simp
  show ?thesis using A B by blast
qed

theorem C2_full_factor_overwrites_witness:
  "Canvas_init example_display None None False False = Inr example_canvas
   \<and> run_ops example_canvas [Set (1 / 2) (1 / 2) 0 1 0 1] =
       (example_canvas\<lparr>canvas := (\<lambda>x y. if (x = 0 \<or> x = 1) \<and> (y = 0 \<or> y = 1)
                                        then (0, 1 / 4, 0, 1 / 4) else (0, 0, 0, 0))\<rparr>,
        [SinkSet 0 0 0 (1 / 4) 0, SinkSet 0 1 0 (1 / 4) 0,
         SinkSet 1 0 0 (1 / 4) 0, SinkSet 1 1 0 (1 / 4) 0])
   \<and> blend (0, 1 / 4, 0, 1 / 4) 1 1 0 (1 / 2) = ((1, 0, 1 / 2, 1), (1, 0, 1 / 2))
   \<and> Canvas_set (example_canvas\<lparr>canvas := (\<lambda>x y. if (x = 0 \<or> x = 1) \<and> (y = 0 \<or> y = 1)
                                        then (0, 1 / 4, 0, 1 / 4) else (0, 0, 0, 0))\<rparr>)
        1 1 2 (- 1) (1 / 2) 1
      = (None,
         example_canvas\<lparr>canvas := (\<lambda>x y. if (x = 0 \<or> x = 1) \<and> (y = 0 \<or> y = 1)
                                        then (0, 1 / 4, 0, 1 / 4) else (0, 0, 0, 0))
                                    (1 := (\<lambda>y. if y = 0 \<or> y = 1 then (0, 1 / 4, 0, 1 / 4) else (0, 0, 0, 0))
                                            (1 := (1, 0, 1 / 2, 1)))\<rparr>,
         [SinkSet 1 1 1 0 (1 / 2)])"
proof -
  have init: "Canvas_init example_display None None False False = Inr example_canvas"
    using example_init by simp
  have run: "run_ops example_canvas [Set (1 / 2) (1 / 2) 0 1 0 1] =
       (example_canvas\<lparr>canvas := (\<lambda>x y. if (x = 0 \<or> x = 1) \<and> (y = 0 \<or> y = 1)
                                        then (0, 1 / 4, 0, 1 / 4) else (0, 0, 0, 0))\<rparr>,
        [SinkSet 0 0 0 (1 / 4) 0, SinkSet 0 1 0 (1 / 4) 0,
         SinkSet 1 0 0 (1 / 4) 0, SinkSet 1 1 0 (1 / 4) 0])"
    by (simp add: run_op_def example_half_pixel)
  have cl: "clamp01 2 = 1" "clamp01 (- 1) = 0" "clamp01 (1 / 2) = 1 / 2"
    by (simp_all add: clamp01_def)
  show ?thesis
    using C2_full_factor_overwrites [OF init run, of 1 0 "1 / 2" 1 1 1 1 1 2 "- 1" "1 / 2"]
      init run cl
    by (simp add: example_display_def example_canvas_def)
qed

text \<open>
  C3. From an empty cell, the blending block with factor \<open>f1\<close> and clamped colour
  \<open>(r1, g1, b1)\<close>, then with factor \<open>f2\<close> and clamped colour \<open>(r2, g2, b2)\<close>, where both
  factors are positive and \<open>f1 + f2 \<le> 1\<close>, leaves coverage \<open>f1 + f2\<close> and, in each
  channel, \<open>f1 * c1 + f2 * c2\<close>.
\<close>

theorem C3_two_draws_add:
  assumes f: "0 < f1" "0 < f2" "f1 + f2 \<le> 1"
    and c1: "0 \<le> r1" "r1 \<le> 1" "0 \<le> g1" "g1 \<le> 1" "0 \<le> b1" "b1 \<le> 1"
    and c2: "0 \<le> r2" "r2 \<le> 1" "0 \<le> g2" "g2 \<le> 1" "0 \<le> b2" "b2 \<le> 1"
  shows "blend (fst (blend (0, 0, 0, 0) f1 r1 g1 b1)) f2 r2 g2 b2 =
           ((f1 * r1 + f2 * r2, f1 * g1 + f2 * g2, f1 * b1 + f2 * b2, f1 + f2),
            (f1 * r1 + f2 * r2, f1 * g1 + f2 * g2, f1 * b1 + f2 * b2))"
proof -
  have f1: "f1 < 1" using f by linarith
  have one: "f1 * r1 \<le> f1" "f1 * g1 \<le> f1" "f1 * b1 \<le> f1"
    using f c1 by (simp_all add: mult_left_le)
  have two: "f2 * r2 \<le> f2" "f2 * g2 \<le> f2" "f2 * b2 \<le> f2"
    using f c2 by (simp_all add: mult_left_le)
  have lt1: "f1 * r1 < 1" "f1 * g1 < 1" "f1 * b1 < 1"
    using one f1 by linarith+
  have first: "blend (0, 0, 0, 0) f1 r1 g1 b1 =
      ((f1 * r1, f1 * g1, f1 * b1, f1), (f1 * r1, f1 * g1, f1 * b1))"
    using lt1 f1 by (simp add: blend_def)
  have cond: "f1 = 0 \<or> f1 \<le> 1 - f2" using f by linarith
  have sums: "f1 * r1 + f2 * r2 \<le> 1" "f1 * g1 + f2 * g2 \<le> 1" "f1 * b1 + f2 * b2 \<le> 1"
    using one two f by linarith+
  have clampr: "(if x < 1 then x else 1) = x" if "x \<le> 1" for x :: real
    using that by simp
  have second: "blend (f1 * r1, f1 * g1, f1 * b1, f1) f2 r2 g2 b2 =
      ((f1 * r1 + f2 * r2, f1 * g1 + f2 * g2, f1 * b1 + f2 * b2, f1 + f2),
       (f1 * r1 + f2 * r2, f1 * g1 + f2 * g2, f1 * b1 + f2 * b2))"
    using cond clampr [OF sums(1)] clampr [OF sums(2)] clampr [OF sums(3)] clampr [OF f(3)]
    by (simp add: blend_def add.commute)
  show ?thesis by (simp add: first second)
qed

theorem C3_two_draws_add_witness:
  "blend (fst (blend (0, 0, 0, 0) (1 / 4) 1 0 (1 / 2))) (1 / 2) 0 1 (1 / 2) =
     ((1 / 4, 1 / 2, 3 / 8, 3 / 4), (1 / 4, 1 / 2, 3 / 8))"
  using C3_two_draws_add [of "1 / 4" "1 / 2" 1 0 "1 / 2" 0 1 "1 / 2"] by simp

text \<open>
  C4. In the general branch of \<^verbatim>\<open>Canvas.set\<close> the region is
  \<open>[dx - l_off, dx + r_off] \<times> [dy - l_off, dy + r_off]\<close> with the offsets of \<open>offsets\<close>, and
  the factor of every cell the loops visit is claimed to be the area the cell shares with
  the region, at most 1, a cell with factor \<open>\<le> 0\<close> being skipped. The code departs from
  this where an upper end of the region is negative and not integral. On the Canvas over
  \<^verbatim>\<open>NullDisplay(2, 2)\<close>, \<^verbatim>\<open>set(-1.5, 0, 1, 1, 1, 1.0)\<close> has the region
  \<open>[-3/2, -1/2] \<times> [0, 1]\<close>; the loop visits the cell \<open>(0, 0)\<close>, which shares nothing
  with the region, computes the factor \<open>1/2\<close> for it, stores \<open>(1/2, 1/2, 1/2, 1/2)\<close> and
  passes that colour to the display.
\<close>

theorem C4_factor_right_of_negative_region:
  "Canvas_init example_display None None False False = Inr example_canvas
   \<and> offsets (1 * c_scale example_canvas) = (0, 1)
   \<and> range_incl (py_int (- (3 / 2) - 0)) (py_int (- (3 / 2) + 1)) = [- 1, 0]
   \<and> range_incl (py_int (0 - 0)) (py_int (0 + 1)) = [0, 1]
   \<and> cell_area (- (3 / 2)) (- (1 / 2)) 0 1 0 0 = 1 / 2
   \<and> overlap_factor (- (3 / 2)) (- (1 / 2)) 0 1 0 0 = 0
   \<and> Canvas_set example_canvas (- (3 / 2)) 0 1 1 1 1 =
       (None,
        example_canvas\<lparr>canvas := (\<lambda>x y. if x = 0 \<and> y = 0 then (1 / 2, 1 / 2, 1 / 2, 1 / 2)
                                         else (0, 0, 0, 0))\<rparr>,
        [SinkSet 0 0 (1 / 2) (1 / 2) (1 / 2)])"
proof -
  have "Canvas_set example_canvas (- (3 / 2)) 0 1 1 1 1 =
       (None,
        example_canvas\<lparr>canvas := (\<lambda>x y. if x = 0 \<and> y = 0 then (1 / 2, 1 / 2, 1 / 2, 1 / 2)
                                         else (0, 0, 0, 0))\<rparr>,
        [SinkSet 0 0 (1 / 2) (1 / 2) (1 / 2)])"
    apply (simp add: example_canvas_def example_display_def eval_defs)
    apply (auto simp: fun_eq_iff)
    done
  moreover have "range_incl (py_int (- (3 / 2) - 0)) (py_int (- (3 / 2) + 1)) = [- 1, 0]"
    "range_incl (py_int (0 - 0)) (py_int (0 + 1)) = [0, 1]"
    by (simp_all add: range_incl_def py_int_def ceiling_def upto.simps)
  moreover have "offsets (1 * c_scale example_canvas) = (0, 1)"
    by (simp add: example_canvas_def offsets_def py_int_def)
  moreover have "cell_area (- (3 / 2)) (- (1 / 2)) 0 1 0 0 = 1 / 2"
    "overlap_factor (- (3 / 2)) (- (1 / 2)) 0 1 0 0 = 0"
    by (simp_all add: cell_area_def overlap_factor_def)
  ultimately show ?thesis using example_init by simp
qed

text \<open>
  C5. On a Canvas over a display of width \<open>W\<close>, take a call of \<^verbatim>\<open>Canvas.set\<close> with
  effective size 1 whose centre is the integral point \<open>(-1, j)\<close> with \<open>0 \<le> j < H\<close>. With
  \<^verbatim>\<open>xwrap\<close> set it gives the same result (exception, buffer and call on the display) as
  the same call with centre \<open>(W - 1, j)\<close>: the cell \<open>(W - 1, j)\<close> is overwritten and
  passed to the display. With \<^verbatim>\<open>xwrap\<close> not set it changes no buffer entry and makes no
  call on the display.
\<close>

theorem C5_wrap_left_edge:
  assumes init: "Canvas_init d w h xw yw = Inr c0"
    and run: "run_ops c0 ops = (c, calls)"
    and s: "s * c_scale c = 1"
    and x1: "x1 * c_scale c = - 1"
    and x2: "x2 * c_scale c = of_int (d_width d) - 1"
    and y: "y * c_scale c = of_int j"
    and j: "0 \<le> j" "j < d_height d"
  shows "(xw \<longrightarrow> Canvas_set c x1 y r g b s = Canvas_set c x2 y r g b s
              \<and> Canvas_set c x1 y r g b s =
                  (None,
                   c\<lparr>canvas := (canvas c)(d_width d - 1 := (canvas c (d_width d - 1))
                                   (j := (clamp01 r, clamp01 g, clamp01 b, 1)))\<rparr>,
                   [SinkSet (d_width d - 1) j (clamp01 r) (clamp01 g) (clamp01 b)]))
         \<and> (\<not> xw \<longrightarrow> Canvas_set c x1 y r g b s = (None, c, []))"
proof -
  have ok0: "buffer_ok (canvas c0)" and d0: "display c0 = d" and w0: "xwrap c0 = xw"
    using Canvas_init_ok [OF init] by simp_all
  have I: "buffer_ok (canvas c)" "same_setup c0 c"
    using run_ops_inv [OF ok0 run] by simp_all
  have dc: "display c = d" and xc: "xwrap c = xw" and sc: "c_scale c = c_scale c0"
    using I(2) d0 w0 by (auto simp: same_setup_def)
  have "c_scale c \<noteq> 0" using s by auto
  then have W: "0 < d_width d" using Canvas_init_scale [OF init] sc by simp
  have x1': "x1 * c_scale c = of_int (- 1)" using x1 by simp
  have out: "\<not> (0 \<le> (- 1 :: int) \<and> - 1 < d_width (display c) \<and> 0 \<le> j \<and> j < d_height (display c))"
    by simp
  note G = Canvas_set_unit_general [OF s x1' y out, of r g b, unfolded dc xc]
  have nowrap: "Canvas_set c x1 y r g b s = (None, c, [])" if "\<not> xw"
    using that by (simp add: G wrap_coord_def)
  have x2': "x2 * c_scale c = of_int (d_width d - 1)" using x2 by simp
  have E: "Canvas_set c x2 y r g b s =
             (None,
              c\<lparr>canvas := (canvas c)(d_width d - 1 := (canvas c (d_width d - 1))
                              (j := (clamp01 r, clamp01 g, clamp01 b, 1)))\<rparr>,
              [SinkSet (d_width d - 1) j (clamp01 r) (clamp01 g) (clamp01 b)])"
    using Canvas_set_exact [OF s x2' y, of r g b] W j by (simp add: dc)
  have "pixel_ok (canvas c (d_width d - 1) j)" using I(1) by (simp add: buffer_ok_def)
  then have B: "blend (canvas c (d_width d - 1) j) 1 (clamp01 r) (clamp01 g) (clamp01 b) =
      ((clamp01 r, clamp01 g, clamp01 b, 1), (clamp01 r, clamp01 g, clamp01 b))"
    using clamp01_range [of r] clamp01_range [of g] clamp01_range [of b]
    by (intro blend_full) simp_all
  have wrap: "Canvas_set c x1 y r g b s =
             (None,
              c\<lparr>canvas := (canvas c)(d_width d - 1 := (canvas c (d_width d - 1))
                              (j := (clamp01 r, clamp01 g, clamp01 b, 1)))\<rparr>,
              [SinkSet (d_width d - 1) j (clamp01 r) (clamp01 g) (clamp01 b)])" if xw
    using that W j by (simp add: G wrap_coord_def paint_def np_index_def B)
  show ?thesis using nowrap wrap E by simp
qed

theorem C5_wrap_left_edge_witness:
  "Canvas_init example_display None None True False = Inr (example_canvas\<lparr>xwrap := True\<rparr>)
   \<and> Canvas_set (example_canvas\<lparr>xwrap := True\<rparr>) (- 1) 0 1 0 0 1
       = Canvas_set (example_canvas\<lparr>xwrap := True\<rparr>) 1 0 1 0 0 1
   \<and> Canvas_set (example_canvas\<lparr>xwrap := True\<rparr>) (- 1) 0 1 0 0 1
       = (None,
          example_canvas\<lparr>xwrap := True,
                          canvas := (\<lambda>x y. if x = 1 \<and> y = 0 then (1, 0, 0, 1) else (0, 0, 0, 0))\<rparr>,
          [SinkSet 1 0 1 0 0])
   \<and> Canvas_init example_display None None False False = Inr example_canvas
   \<and> Canvas_set example_canvas (- 1) 0 1 0 0 1 = (None, example_canvas, [])"
proof -
  have initw: "Canvas_init example_display None None True False
                 = Inr (example_canvas\<lparr>xwrap := True\<rparr>)"
    by (simp add: Canvas_init_def example_display_def example_canvas_def)
  have init: "Canvas_init example_display None None False False = Inr example_canvas"
    using example_init by simp
  have runw: "run_ops (example_canvas\<lparr>xwrap := True\<rparr>) [] = (example_canvas\<lparr>xwrap := True\<rparr>, [])"
    and run: "run_ops example_canvas [] = (example_canvas, [])"
    by simp_all
  have f: "(\<lambda>x y. (0 :: real, 0 :: real, 0 :: real, 0 :: real))(1 := (\<lambda>y. (0, 0, 0, 0))(0 := (1, 0, 0, 1)))
           = (\<lambda>x y. if x = (1 :: int) \<and> y = (0 :: int) then (1, 0, 0, 1) else (0, 0, 0, 0))"
    by (auto simp: fun_eq_iff)
  have AB: "Canvas_set (example_canvas\<lparr>xwrap := True\<rparr>) (- 1) 0 1 0 0 1
             = Canvas_set (example_canvas\<lparr>xwrap := True\<rparr>) 1 0 1 0 0 1
    \<and> Canvas_set (example_canvas\<lparr>xwrap := True\<rparr>) (- 1) 0 1 0 0 1
       = (None,
          example_canvas\<lparr>xwrap := True,
                          canvas := (\<lambda>x y. if x = 1 \<and> y = 0 then (1, 0, 0, 1) else (0, 0, 0, 0))\<rparr>,
          [SinkSet 1 0 1 0 0])"
    using C5_wrap_left_edge [OF initw runw, of 1 "- 1" 1 0 0 1 0 0]
    by (simp add: example_display_def example_canvas_def clamp01_def f) (erule conjE, simp)
  have C: "Canvas_set example_canvas (- 1) 0 1 0 0 1 = (None, example_canvas, [])"
    using C5_wrap_left_edge [OF init run, of 1 "- 1" 1 0 0 1 0 0]
    by (simp add: example_display_def example_canvas_def)
  show ?thesis
    using AB C initw init by blast
qed

text \<open>
  C6. In every Canvas state, \<^verbatim>\<open>Canvas.set\<close> with an effective side \<open>s * scale \<le> 0\<close>
  returns without changing any buffer entry and without a call on the display.
\<close>

theorem C6_nonpositive_side_noop:
  assumes "s * c_scale c \<le> 0"
  shows "Canvas_set c x y r g b s = (None, c, [])"
  using assms by (simp add: Canvas_set_def Let_def)

theorem C6_nonpositive_side_noop_witness:
  "(0 :: real) * c_scale example_canvas \<le> 0
   \<and> Canvas_set example_canvas 1 1 1 1 1 0 = (None, example_canvas, [])
   \<and> (- 2 :: real) * c_scale example_canvas \<le> 0
   \<and> Canvas_set example_canvas 1 1 1 1 1 (- 2) = (None, example_canvas, [])"
proof -
  have a: "(0 :: real) * c_scale example_canvas \<le> 0" by simp
  have b: "(- 2 :: real) * c_scale example_canvas \<le> 0" by (simp add: example_canvas_def)
  show ?thesis
    using a b C6_nonpositive_side_noop [OF a, of 1 1 1 1 1]
      C6_nonpositive_side_noop [OF b, of 1 1 1 1 1]
    by simp
qed

text \<open>
  C7. \<^verbatim>\<open>Canvas.set_image\<close> on an image whose width or height is not positive raises
  the error of the dimension check before any pixel is processed: the Canvas is as it was
  and no call is made on the display. On an image with positive dimensions that error is
  not raised.
\<close>

theorem C7_image_dimensions:
  assumes "im_size img = (iw, ih)"
  shows "(iw \<le> 0 \<or> ih \<le> 0 \<longrightarrow> Canvas_set_image c img = (Some ValueError, c, []))
         \<and> (0 < iw \<and> 0 < ih \<longrightarrow> fst (Canvas_set_image c img) \<noteq> Some ValueError)"
proof -
  have A: "Canvas_set_image c img = (Some ValueError, c, [])" if "iw \<le> 0 \<or> ih \<le> 0"
    using that assms by (auto simp: Canvas_set_image_def split: prod.splits)
  have B: "fst (Canvas_set_image c img) \<noteq> Some ValueError" if "0 < iw" "0 < ih"
  proof
    assume "fst (Canvas_set_image c img) = Some ValueError"
    then obtain c' calls where "Canvas_set_image c img = (Some ValueError, c', calls)"
      by (cases "Canvas_set_image c img") auto
    then have "ValueError = IndexError"
      by (rule Canvas_set_image_error [OF assms that])
    then show False by simp
  qed
  show ?thesis using A B by blast
qed

theorem C7_image_dimensions_witness:
  "Canvas_set_image example_canvas \<lparr>im_size = (0, 3), getpixel = (\<lambda>p. (255, 0, 0))\<rparr>
     = (Some ValueError, example_canvas, [])
   \<and> Canvas_set_image example_canvas \<lparr>im_size = (2, 2), getpixel = (\<lambda>p. (255, 0, 51))\<rparr>
     = (None,
        example_canvas\<lparr>canvas := (\<lambda>x y. if (x = 0 \<or> x = 1) \<and> (y = 0 \<or> y = 1)
                                         then (1, 0, 1 / 5, 1) else (0, 0, 0, 0))\<rparr>,
        [SinkSet 0 0 1 0 (1 / 5), SinkSet 0 1 1 0 (1 / 5),
         SinkSet 1 0 1 0 (1 / 5), SinkSet 1 1 1 0 (1 / 5)])
   \<and> fst (Canvas_set_image example_canvas \<lparr>im_size = (2, 2), getpixel = (\<lambda>p. (255, 0, 51))\<rparr>)
       \<noteq> Some ValueError"
proof -
  have sz0: "im_size \<lparr>im_size = (0, 3), getpixel = (\<lambda>p. (255 :: int, 0 :: int, 0 :: int))\<rparr> = (0, 3)"
    by simp
  have sz1: "im_size \<lparr>im_size = (2, 2), getpixel = (\<lambda>p. (255 :: int, 0 :: int, 51 :: int))\<rparr> = (2, 2)"
    by simp
  have run: "Canvas_set_image example_canvas \<lparr>im_size = (2, 2), getpixel = (\<lambda>p. (255, 0, 51))\<rparr>
     = (None,
        example_canvas\<lparr>canvas := (\<lambda>x y. if (x = 0 \<or> x = 1) \<and> (y = 0 \<or> y = 1)
                                         then (1, 0, 1 / 5, 1) else (0, 0, 0, 0))\<rparr>,
        [SinkSet 0 0 1 0 (1 / 5), SinkSet 0 1 1 0 (1 / 5),
         SinkSet 1 0 1 0 (1 / 5), SinkSet 1 1 1 0 (1 / 5)])"
    apply (simp add: Canvas_set_image_def get_shape_def example_canvas_def example_display_def
        range_py_def upto.simps py_round_def Let_def)
    apply (simp add: eval_defs)
    apply (auto simp: fun_eq_iff)
    done
  show ?thesis
    using C7_image_dimensions [OF sz0, of example_canvas]
      C7_image_dimensions [OF sz1, of example_canvas] run
    by simp
qed

text \<open>
  C8, as claimed: the orientation setter of every display, the Null display included,
  raises on a value outside \<open>{0, 90, 180, 270}\<close> and stores a value inside it. The Null
  display does neither: on the display that \<^verbatim>\<open>NullDisplay(2, 2)\<close> constructs, the setter
  returns normally for 45, and after setting 90 the stored orientation is still 0.
\<close>

theorem C8_null_display_counterexample:
  "NullDisplay_init 2 2 = Inr example_display
   \<and> (45 :: int) \<notin> {0, 90, 180, 270}
   \<and> NullDisplay_set_orientation example_display 45 = (None, example_display)
   \<and> (90 :: int) \<in> {0, 90, 180, 270}
   \<and> d_orientation (snd (NullDisplay_set_orientation example_display 90)) = 0"
  by (simp add: NullDisplay_init_def NullDisplay_set_orientation_def example_display_def)

text \<open>
  C8, amended. The sources have three orientation setters. \<^verbatim>\<open>Display.set_orientation\<close>,
  which \<^verbatim>\<open>MAX7219\<close>, the PIL displays, \<^verbatim>\<open>RGBLEDMatrix\<close> and \<^verbatim>\<open>SDL\<close> inherit, raises
  on a value outside \<open>{0, 90, 180, 270}\<close> and leaves the stored orientation as it was,
  and stores a value inside the set without an error. The setter of the Unicorn HAT
  displays does the same and, only for a value inside the set, then passes the value to
  the rotation of the device; for a value outside it the device is not called. The setter
  of the Null display accepts every value, raises nothing and leaves the stored
  orientation as it was.
\<close>

theorem C8_set_orientation:
  "(orientation \<notin> {0, 90, 180, 270}
      \<longrightarrow> Display_set_orientation d orientation = (Some ValueError, d)
          \<and> UnicornHat_set_orientation d orientation = (Some ValueError, d, []))
   \<and> (orientation \<in> {0, 90, 180, 270}
      \<longrightarrow> Display_set_orientation d orientation = (None, d\<lparr>d_orientation := orientation\<rparr>)
          \<and> UnicornHat_set_orientation d orientation
              = (None, d\<lparr>d_orientation := orientation\<rparr>, [Rotation orientation]))
   \<and> NullDisplay_set_orientation d orientation = (None, d)"
  by (simp add: Display_set_orientation_def UnicornHat_set_orientation_def
        NullDisplay_set_orientation_def)

theorem C8_set_orientation_witness:
  "Display_set_orientation example_display 45 = (Some ValueError, example_display)
   \<and> UnicornHat_set_orientation example_display 45 = (Some ValueError, example_display, [])
   \<and> Display_set_orientation example_display 270
       = (None, \<lparr>d_orientation = 270, d_width = 2, d_height = 2\<rparr>)
   \<and> UnicornHat_set_orientation example_display 270
       = (None, \<lparr>d_orientation = 270, d_width = 2, d_height = 2\<rparr>, [Rotation 270])
   \<and> NullDisplay_set_orientation example_display 270 = (None, example_display)"
  using C8_set_orientation [of 45 example_display] C8_set_orientation [of 270 example_display]
  by (simp add: example_display_def)

text \<open>
  C9, as claimed: constructing the Null display with a width or height that is not
  positive reports an error. \<^verbatim>\<open>NullDisplay(0, -3)\<close> reports none and constructs the
  display of 1 by 1.
\<close>

theorem C9_null_display_counterexample:
  "NullDisplay_init 0 (- 3) = Inr \<lparr>d_orientation = 0, d_width = 1, d_height = 1\<rparr>"
  by (simp add: NullDisplay_init_def)

text \<open>
  C9, amended. Constructing the Null display never reports an error: a width or height
  that is not positive is replaced by 1, so the shape the display reports is positive in
  both directions. Constructing a Canvas whose logical width or height (the one given, or
  the display's when none is given) is not positive raises an error, and no Canvas is
  constructed.
\<close>

theorem C9_construction:
  "NullDisplay_init width height =
      Inr \<lparr>d_orientation = 0, d_width = max 1 width, d_height = max 1 height\<rparr>
   \<and> 0 < fst (get_shape \<lparr>d_orientation = 0, d_width = max 1 width, d_height = max 1 height\<rparr>)
   \<and> 0 < snd (get_shape \<lparr>d_orientation = 0, d_width = max 1 width, d_height = max 1 height\<rparr>)
   \<and> ((case w of None \<Rightarrow> d_width d | Some v \<Rightarrow> v) \<le> 0
        \<or> (case h of None \<Rightarrow> d_height d | Some v \<Rightarrow> v) \<le> 0
      \<longrightarrow> Canvas_init d w h xw yw = Inl ValueError)"
  by (auto simp: NullDisplay_init_def get_shape_def Canvas_init_def Let_def)

theorem C9_construction_witness:
  "NullDisplay_init 0 (- 3) = Inr \<lparr>d_orientation = 0, d_width = 1, d_height = 1\<rparr>
   \<and> get_shape \<lparr>d_orientation = 0, d_width = 1, d_height = 1\<rparr> = (1, 1)
   \<and> Canvas_init example_display (Some 0) None False False = Inl ValueError
   \<and> Canvas_init example_display (Some 4) (Some (- 1)) False False = Inl ValueError
   \<and> Canvas_init \<lparr>d_orientation = 0, d_width = 0, d_height = 5\<rparr> None None False False
       = Inl ValueError"
  using C9_construction [where width = 0 and height = "- 3" and w = "Some 0"
                           and d = example_display and h = None and xw = False and yw = False]
    C9_construction [where width = 0 and height = "- 3" and w = "Some 4"
                      and d = example_display and h = "Some (- 1)" and xw = False and yw = False]
    C9_construction [where width = 0 and height = "- 3" and w = None
                      and d = "\<lparr>d_orientation = 0, d_width = 0, d_height = 5\<rparr>"
                      and h = None and xw = False and yw = False]
  by (simp add: get_shape_def)

text \<open>
  C10. After every Canvas operation (construction, \<^verbatim>\<open>clear\<close>, \<^verbatim>\<open>set\<close>,
  \<^verbatim>\<open>set_image\<close>) every entry of the buffer has each channel at most its coverage, and the
  colour passed to the display in each \<^verbatim>\<open>display.set\<close> call, which is the value before
  the clamp of the store, does not exceed 1.
\<close>

theorem C10_channels_below_coverage:
  assumes "Canvas_init d w h xw yw = Inr c0"
    and "run_ops c0 ops = (c, calls)"
    and "0 \<le> x" "x < d_width d" "0 \<le> y" "y < d_height d"
  shows "pixel_below (canvas c x y) \<and> list_all call_le1 calls"
proof -
  have "buffer_ok (canvas c0)" using Canvas_init_ok [OF assms(1)] by simp
  then have "buffer_ok (canvas c) \<and> list_all call_le1 calls"
    using run_ops_inv [OF _ assms(2)] by simp
  then show ?thesis by (simp add: buffer_ok_def)
qed

theorem C10_channels_below_coverage_witness:
  "Canvas_init example_display None None False False = Inr example_canvas
   \<and> run_ops example_canvas [Set (1 / 2) (1 / 2) 0 1 0 1] =
       (example_canvas\<lparr>canvas := (\<lambda>x y. if (x = 0 \<or> x = 1) \<and> (y = 0 \<or> y = 1)
                                        then (0, 1 / 4, 0, 1 / 4) else (0, 0, 0, 0))\<rparr>,
        [SinkSet 0 0 0 (1 / 4) 0, SinkSet 0 1 0 (1 / 4) 0,
         SinkSet 1 0 0 (1 / 4) 0, SinkSet 1 1 0 (1 / 4) 0])
   \<and> pixel_below (0, 1 / 4, 0, 1 / 4)
   \<and> list_all call_le1 [SinkSet 0 0 0 (1 / 4) 0, SinkSet 0 1 0 (1 / 4) 0,
                         SinkSet 1 0 0 (1 / 4) 0, SinkSet 1 1 0 (1 / 4) 0]"
proof -
  have init: "Canvas_init example_display None None False False = Inr example_canvas"
    using example_init by simp
  have run: "run_ops example_canvas [Set (1 / 2) (1 / 2) 0 1 0 1] =
       (example_canvas\<lparr>canvas := (\<lambda>x y. if (x = 0 \<or> x = 1) \<and> (y = 0 \<or> y = 1)
                                        then (0, 1 / 4, 0, 1 / 4) else (0, 0, 0, 0))\<rparr>,
        [SinkSet 0 0 0 (1 / 4) 0, SinkSet 0 1 0 (1 / 4) 0,
         SinkSet 1 0 0 (1 / 4) 0, SinkSet 1 1 0 (1 / 4) 0])"
    by (simp add: run_op_def example_half_pixel)
  show ?thesis
    using C10_channels_below_coverage [OF init run, of 1 1] init run
    by (simp add: example_display_def)
qed

end
